theory Spec2Isabelle
  imports Main "HOL-Library.Sublist"
begin

section \<open>Strings, numbers and lines\<close>

text \<open>
  A JavaScript string is modelled as a \<open>string\<close>, one \<open>char\<close> per code unit. The
  model is exact for ASCII text, to which SDP documents are confined; the non-ASCII
  members of the regular-expression classes \<^verbatim>\<open>\s\<close> and of the line terminators are
  outside it. A payload number (\<^verbatim>\<open>+match[1]\<close>) is a \<open>nat\<close>: JavaScript numbers agree
  with it for every digit string below \<open>2 ^ 53\<close>, and payload types are below 128.
\<close>

abbreviation LF :: char where "LF \<equiv> CHR 0x0A"
abbreviation CR :: char where "CR \<equiv> CHR 0x0D"

text \<open>\<^verbatim>\<open>line.startsWith(p)\<close>.\<close>

definition startsWith :: "string \<Rightarrow> string \<Rightarrow> bool" where
  "startsWith line p = prefix p line"

text \<open>\<^verbatim>\<open>realSdp.split('\n')\<close>: the empty string gives one empty line, and a document
  ending in a newline gives a last empty line. \<open>cur\<close> is the line being read.\<close>

fun split_from :: "string \<Rightarrow> string \<Rightarrow> string list" where
  "split_from cur [] = [cur]"
| "split_from cur (c # cs) =
     (if c = LF then cur # split_from [] cs else split_from (cur @ [c]) cs)"

definition split_nl :: "string \<Rightarrow> string list" where
  "split_nl s = split_from [] s"

definition is_digit :: "char \<Rightarrow> bool" where
  "is_digit c = (c \<in> set ''0123456789'')"

text \<open>\<^verbatim>\<open>\s\<close> on ASCII: tab, line feed, vertical tab, form feed, carriage return, space.\<close>

definition is_space :: "char \<Rightarrow> bool" where
  "is_space c = (c \<in> {CHR 0x09, LF, CHR 0x0B, CHR 0x0C, CR, CHR '' ''})"

text \<open>The characters that \<^verbatim>\<open>.\<close> does not match.\<close>

definition is_line_terminator :: "char \<Rightarrow> bool" where
  "is_line_terminator c = (c = LF \<or> c = CR)"

text \<open>Unary plus on a string of decimal digits.\<close>

definition toNumber :: "string \<Rightarrow> nat" where
  "toNumber ds = foldl (\<lambda>n c. 10 * n + (of_char c - 48)) 0 ds"

text \<open>The decimal text of a number, as \<^verbatim>\<open>join\<close> prints it.\<close>

definition digit_char :: "nat \<Rightarrow> char" where
  "digit_char d = ''0123456789'' ! d"

fun numToString :: "nat \<Rightarrow> string" where
  "numToString n =
     (if n < 10 then [digit_char n]
      else numToString (n div 10) @ [digit_char (n mod 10)])"

declare numToString.simps [simp del]

text \<open>\<^verbatim>\<open>allowed.join(' ')\<close>.\<close>

fun join_sp :: "nat list \<Rightarrow> string" where
  "join_sp [] = []"
| "join_sp [n] = numToString n"
| "join_sp (n # m # ns) = numToString n @ '' '' @ join_sp (m # ns)"

section \<open>The regular expressions of sdpFilterCodec\<close>

text \<open>
  None of the expressions is anchored at the start and none has a flag, so a match is
  looked for at index 0, then 1, and so on up to the end of the line, and \<^verbatim>\<open>$\<close> is the
  end of the line. \<open>search m line\<close> runs the matcher \<open>m\<close> at each index in turn and
  returns the text before the first match together with what \<open>m\<close> captured.
\<close>

fun search :: "(string \<Rightarrow> 'a option) \<Rightarrow> string \<Rightarrow> (string \<times> 'a) option" where
  "search m [] = map_option (Pair []) (m [])"
| "search m (c # cs) =
     (case m (c # cs) of
        Some r \<Rightarrow> Some ([], r)
      | None \<Rightarrow> map_option (\<lambda>(p, r). (c # p, r)) (search m cs))"

text \<open>A literal piece of a pattern: the text after \<open>p\<close> when the input starts with it.\<close>

definition after :: "string \<Rightarrow> string \<Rightarrow> string option" where
  "after p s = (if prefix p s then Some (drop (length p) s) else None)"

text \<open>
  \<^verbatim>\<open>([0-9]+)\<close> is greedy and what follows it in every pattern here is a character that
  is no digit (or nothing), so giving a digit back never helps: the group is the whole
  run of digits, and it must not be empty.
\<close>

definition digits1 :: "string \<Rightarrow> (string \<times> string) option" where
  "digits1 s =
     (if takeWhile is_digit s = [] then None
      else Some (takeWhile is_digit s, dropWhile is_digit s))"

text \<open>
  \<^verbatim>\<open>codecRegex = 'a=rtpmap:([0-9]+) ' + escapeRegExp(codec)\<close> at one index. The escaping
  makes the codec name match as the literal text it is. The result is group 1.
\<close>

definition codec_at :: "string \<Rightarrow> string \<Rightarrow> string option" where
  "codec_at codec s =
     (case after ''a=rtpmap:'' s of
        None \<Rightarrow> None
      | Some r \<Rightarrow>
          (case digits1 r of
             None \<Rightarrow> None
           | Some (g1, r1) \<Rightarrow> if prefix ('' '' @ codec) r1 then Some g1 else None))"

text \<open>
  \<^verbatim>\<open>rtxRegex = 'a=fmtp:(\d+) apt=(\d+)\r$'\<close> at one index: the line has to end in a
  carriage return right after the second number. The result is groups 1 and 2.
\<close>

definition rtx_at :: "string \<Rightarrow> (string \<times> string) option" where
  "rtx_at s =
     (case after ''a=fmtp:'' s of
        None \<Rightarrow> None
      | Some r \<Rightarrow>
          (case digits1 r of
             None \<Rightarrow> None
           | Some (g1, r1) \<Rightarrow>
               (case after '' apt='' r1 of
                  None \<Rightarrow> None
                | Some r2 \<Rightarrow>
                    (case digits1 r2 of
                       None \<Rightarrow> None
                     | Some (g2, r3) \<Rightarrow> if r3 = [CR] then Some (g1, g2) else None))))"

text \<open>
  \<^verbatim>\<open>skipRegex = 'a=(fmtp|rtcp-fb|rtpmap):([0-9]+)'\<close> at one index, the alternatives
  tried in the order written. The result is group 2.
\<close>

definition skip_alt :: "string \<Rightarrow> string \<Rightarrow> string option" where
  "skip_alt alt r =
     (case after (alt @ '':'') r of
        None \<Rightarrow> None
      | Some r1 \<Rightarrow> map_option fst (digits1 r1))"

definition skip_at :: "string \<Rightarrow> string option" where
  "skip_at s =
     (case after ''a='' s of
        None \<Rightarrow> None
      | Some r \<Rightarrow>
          (case skip_alt ''fmtp'' r of
             Some g2 \<Rightarrow> Some g2
           | None \<Rightarrow>
               (case skip_alt ''rtcp-fb'' r of
                  Some g2 \<Rightarrow> Some g2
                | None \<Rightarrow> skip_alt ''rtpmap'' r)))"

datatype kind = Video | Audio

fun kind_str :: "kind \<Rightarrow> string" where
  "kind_str Video = ''video''"
| "kind_str Audio = ''audio''"

text \<open>
  \<^verbatim>\<open>videoRegex = '(m=' + kind + ' .*?)( ([0-9]+))*\s*$'\<close>. \<open>tail_ok\<close> is the part after
  group 1, \<^verbatim>\<open>( ([0-9]+))*\s*$\<close>: the rest of the line is a run of groups "space, digits"
  followed by white space only.
\<close>

function tail_ok :: "string \<Rightarrow> bool" where
  "tail_ok [] = True"
| "tail_ok (c # r) =
     (list_all is_space (c # r) \<or>
      (c = CHR '' '' \<and> takeWhile is_digit r \<noteq> [] \<and> tail_ok (dropWhile is_digit r)))"
  by pat_completeness auto
termination
  by (relation "measure length") (auto simp: less_Suc_eq_le length_dropWhile_le)

text \<open>
  \<^verbatim>\<open>.*?\<close> is lazy: it takes no character if the rest of the pattern then matches, else
  one character more, and it cannot take a line terminator.
\<close>

fun lazy_dots :: "string \<Rightarrow> string option" where
  "lazy_dots [] = Some []"
| "lazy_dots (c # cs) =
     (if tail_ok (c # cs) then Some []
      else if is_line_terminator c then None
      else map_option ((#) c) (lazy_dots cs))"

text \<open>\<open>videoRegex\<close> at one index. The match runs to the end of the line; the result is
  group 1.\<close>

definition video_at :: "kind \<Rightarrow> string \<Rightarrow> string option" where
  "video_at kind s =
     (case after (''m='' @ kind_str kind @ '' '') s of
        None \<Rightarrow> None
      | Some r \<Rightarrow> map_option (\<lambda>p. ''m='' @ kind_str kind @ '' '' @ p) (lazy_dots r))"

section \<open>sdpFilterCodec\<close>

text \<open>The update of the flag \<open>isKind\<close> that both passes start with.\<close>

definition isKind_step :: "kind \<Rightarrow> string \<Rightarrow> bool \<Rightarrow> bool" where
  "isKind_step kind line isKind =
     (startsWith line (''m='' @ kind_str kind @ '' '') \<or>
      (\<not> startsWith line ''m='' \<and> isKind))"

text \<open>
  The callback of the first \<^verbatim>\<open>reduce\<close>. The state is the captured variable \<open>isKind\<close>
  and the accumulator \<open>old\<close>.
\<close>

definition collect_step :: "kind \<Rightarrow> string \<Rightarrow> bool \<times> nat list \<Rightarrow> string \<Rightarrow> bool \<times> nat list" where
  "collect_step kind codec st line =
     (case st of (isKind, old) \<Rightarrow>
        let isKind' = isKind_step kind line isKind;
            matchCodex = search (codec_at codec) line;
            matchRegex = search rtx_at line;
            old1 = (case matchCodex of
                      Some (_, g1) \<Rightarrow> old @ [toNumber g1]
                    | None \<Rightarrow> old);
            old2 = (case matchRegex of
                      Some (_, g1, g2) \<Rightarrow>
                        if toNumber g2 \<in> set old1 then old1 @ [toNumber g1] else old1
                    | None \<Rightarrow> old1)
        in (isKind', old2))"

text \<open>
  The callback of the second \<^verbatim>\<open>reduce\<close>. The replacement text \<^verbatim>\<open>'$1' + allowed.join(' ')\<close>
  is group 1 followed by the joined numbers (the pattern has three groups, so \<^verbatim>\<open>$1\<close>
  followed by a digit is still group 1), and it replaces the match, which runs to the
  end of the line.
\<close>

definition rewrite_step :: "kind \<Rightarrow> nat list \<Rightarrow> bool \<times> string \<Rightarrow> string \<Rightarrow> bool \<times> string" where
  "rewrite_step kind allowed st line =
     (case st of (isKind, old) \<Rightarrow>
        let isKind' = isKind_step kind line isKind;
            isIncluded = (case search skip_at line of
                            Some (_, g2) \<Rightarrow> toNumber g2 \<in> set allowed
                          | None \<Rightarrow> False);
            isVideo = search (video_at kind) line
        in (isKind',
            if isKind' then
              if isIncluded then
                (case isVideo of
                   Some (pre, g1) \<Rightarrow> old @ (pre @ g1 @ join_sp allowed) @ '' \<newline>''
                 | None \<Rightarrow> old @ line @ '' \<newline>'')
              else old
            else old @ line @ '' \<newline>''))"

text \<open>\<^verbatim>\<open>realSdp?.split('\n') ?? []\<close>.\<close>

definition sdp_lines :: "string option \<Rightarrow> string list" where
  "sdp_lines realSdp = (case realSdp of None \<Rightarrow> [] | Some s \<Rightarrow> split_nl s)"

text \<open>The first pass from a given state, and the list \<open>allowed\<close> it builds.\<close>

definition collect :: "kind \<Rightarrow> string \<Rightarrow> bool \<times> nat list \<Rightarrow> string list \<Rightarrow> bool \<times> nat list" where
  "collect kind codec st ls = foldl (collect_step kind codec) st ls"

definition allowed_of :: "kind \<Rightarrow> string \<Rightarrow> string list \<Rightarrow> nat list" where
  "allowed_of kind codec ls = snd (collect kind codec (False, []) ls)"

text \<open>The second pass from a given state.\<close>

definition rewrite :: "kind \<Rightarrow> nat list \<Rightarrow> bool \<times> string \<Rightarrow> string list \<Rightarrow> bool \<times> string" where
  "rewrite kind allowed st ls = foldl (rewrite_step kind allowed) st ls"

definition sdpFilterCodec :: "kind \<Rightarrow> string \<Rightarrow> string option \<Rightarrow> string" where
  "sdpFilterCodec kind codec realSdp =
     (let ls = sdp_lines realSdp;
          allowed = allowed_of kind codec ls
      in snd (rewrite kind allowed (False, []) ls))"

section \<open>Notions the statements use\<close>

text \<open>What one line appends to \<open>old\<close> in the first pass: the payload type of a
  \<open>codecRegex\<close> match, then that of an \<open>rtxRegex\<close> match whose base is in the list.\<close>

definition codec_pts :: "string \<Rightarrow> string \<Rightarrow> nat list" where
  "codec_pts codec line =
     (case search (codec_at codec) line of Some (_, g1) \<Rightarrow> [toNumber g1] | None \<Rightarrow> [])"

definition rtx_pts :: "nat list \<Rightarrow> string \<Rightarrow> nat list" where
  "rtx_pts old1 line =
     (case search rtx_at line of
        Some (_, g1, g2) \<Rightarrow> if toNumber g2 \<in> set old1 then [toNumber g1] else []
      | None \<Rightarrow> [])"

text \<open>The lines that \<open>rtxRegex\<close> matches, read off the pattern: some text \<open>p\<close>, then
  \<^verbatim>\<open>a=fmtp:\<close>, the digits \<open>g1\<close>, \<^verbatim>\<open> apt=\<close>, the digits \<open>g2\<close> and a carriage return that
  ends the line.\<close>

definition rtx_text :: "string \<Rightarrow> string \<Rightarrow> string \<Rightarrow> string \<Rightarrow> bool" where
  "rtx_text l p g1 g2 =
     (l = p @ ''a=fmtp:'' @ g1 @ '' apt='' @ g2 @ [CR] \<and>
      g1 \<noteq> [] \<and> list_all is_digit g1 \<and> g2 \<noteq> [] \<and> list_all is_digit g2)"

text \<open>The value of \<open>isKind\<close> after the lines \<open>ls\<close>, and whether the last line of \<open>ls\<close>
  lies in the section of the kind (the flag starts as false).\<close>

definition flag_after :: "kind \<Rightarrow> bool \<Rightarrow> string list \<Rightarrow> bool" where
  "flag_after kind k ls = foldl (\<lambda>k l. isKind_step kind l k) k ls"

definition in_section :: "kind \<Rightarrow> string list \<Rightarrow> bool" where
  "in_section kind ls = flag_after kind False ls"

text \<open>\<open>isIncluded\<close> of the second pass, the text that pass keeps for one line (\<open>None\<close>
  when the line is dropped), the texts kept for a list of lines, and their
  concatenation with the terminator the pass writes after each.\<close>

definition included :: "nat list \<Rightarrow> string \<Rightarrow> bool" where
  "included allowed line =
     (case search skip_at line of
        Some (_, g2) \<Rightarrow> toNumber g2 \<in> set allowed
      | None \<Rightarrow> False)"

definition emit :: "kind \<Rightarrow> nat list \<Rightarrow> bool \<Rightarrow> string \<Rightarrow> string option" where
  "emit kind allowed isKind' line =
     (if isKind' then
        if included allowed line then
          (case search (video_at kind) line of
             Some (pre, g1) \<Rightarrow> Some (pre @ g1 @ join_sp allowed)
           | None \<Rightarrow> Some line)
        else None
      else Some line)"

fun chunks :: "kind \<Rightarrow> nat list \<Rightarrow> bool \<Rightarrow> string list \<Rightarrow> string list" where
  "chunks kind allowed k [] = []"
| "chunks kind allowed k (l # ls) =
     (case emit kind allowed (isKind_step kind l k) l of
        None \<Rightarrow> chunks kind allowed (isKind_step kind l k) ls
      | Some c \<Rightarrow> c # chunks kind allowed (isKind_step kind l k) ls)"

definition terminated :: "string list \<Rightarrow> string" where
  "terminated cs = concat (map (\<lambda>c. c @ '' \<newline>'') cs)"

section \<open>The exported function: start and stop\<close>

text \<open>
  The closure of the exported function holds the variable \<open>pc\<close>. Everything it does to
  the page and to the connection is recorded, in order, in \<open>effects\<close>. An element of the
  page is a number. A connection is what \<open>stopCamera\<close> reads of it: whether it has
  \<^verbatim>\<open>getTransceivers\<close>, its transceivers (each with whether it has \<^verbatim>\<open>stop\<close>) and the
  track of each sender, if there is one.
\<close>

type_synonym element = nat

record RTCOptions =
  destination :: element
  start :: "element option"
  stop :: "element option"
  source :: "element option"
  debug :: bool
  audio :: bool
  video :: bool

record connection =
  hasGetTransceivers :: bool
  transceivers :: "(nat \<times> bool) list"
  senders :: "nat option list"

text \<open>The two click listeners: \<^verbatim>\<open>() => pc ? stopRecording() : startRecording()\<close> and
  \<^verbatim>\<open>() => stopRecording()\<close>.\<close>

datatype handler = ToggleRecording | StopRecording

datatype effect =
    ClearSource element
  | StopTransceiver nat
  | StopTrack nat
  | CloseAfter nat
  | StartCamera element "element option" bool bool bool
  | AddClickListener element handler

record world =
  pc :: "connection option"
  effects :: "effect list"

datatype jsvalue = Undefined | Null | Defined

text \<open>
  \<open>startRecording\<close> is asynchronous: the call runs \<open>startCamera\<close> up to its first
  \<^verbatim>\<open>await\<close> and returns; the assignment to \<open>pc\<close> happens when the negotiation has
  finished and is not part of this step.
\<close>

definition startRecording :: "RTCOptions \<Rightarrow> world \<Rightarrow> world" where
  "startRecording options w =
     w\<lparr>effects := effects w @
        [StartCamera (destination options) (source options) (debug options)
           (audio options) (video options)]\<rparr>"

definition stopCamera :: "connection \<Rightarrow> element option \<Rightarrow> world \<Rightarrow> connection \<times> world" where
  "stopCamera c displaySource w =
     (let e1 = (case displaySource of Some el \<Rightarrow> [ClearSource el] | None \<Rightarrow> []);
          e2 = (if hasGetTransceivers c
                then concat (map (\<lambda>(t, hasStop). if hasStop then [StopTransceiver t] else [])
                               (transceivers c))
                else []);
          e3 = concat (map (\<lambda>s. case s of Some t \<Rightarrow> [StopTrack t] | None \<Rightarrow> []) (senders c));
          e4 = [CloseAfter 500]
      in (c, w\<lparr>effects := effects w @ e1 @ e2 @ e3 @ e4\<rparr>))"

text \<open>\<^verbatim>\<open>pc = pc ? stopCamera(pc, source) : pc; pc = null\<close>.\<close>

definition stopRecording :: "RTCOptions \<Rightarrow> world \<Rightarrow> world" where
  "stopRecording options w =
     (let w1 = (case pc w of
                  Some c \<Rightarrow> (case stopCamera c (source options) w of
                               (c', w') \<Rightarrow> w'\<lparr>pc := Some c'\<rparr>)
                | None \<Rightarrow> w\<lparr>pc := pc w\<rparr>)
      in w1\<lparr>pc := None\<rparr>)"

text \<open>\<^verbatim>\<open>addEventListener\<close> registers the listener and returns \<^verbatim>\<open>undefined\<close>.\<close>

definition addEventListener :: "element \<Rightarrow> handler \<Rightarrow> world \<Rightarrow> jsvalue \<times> world" where
  "addEventListener el h w = (Undefined, w\<lparr>effects := effects w @ [AddClickListener el h]\<rparr>)"

fun click :: "handler \<Rightarrow> RTCOptions \<Rightarrow> world \<Rightarrow> world" where
  "click ToggleRecording options w =
     (if pc w \<noteq> None then stopRecording options w else startRecording options w)"
| "click StopRecording options w = stopRecording options w"

text \<open>The left operand of \<^verbatim>\<open>??\<close> gives way to the right one when it is null or undefined.\<close>

definition nullish :: "jsvalue \<Rightarrow> bool" where
  "nullish v = (v = Undefined \<or> v = Null)"

text \<open>
  The body of the exported function after its declarations:
  \<^verbatim>\<open>start?.addEventListener('click', ...) ?? startRecording()\<close> and
  \<^verbatim>\<open>stop?.addEventListener('click', ...)\<close>. An optional call on a missing element is
  \<^verbatim>\<open>undefined\<close>.
\<close>

definition webrtc_default :: "RTCOptions \<Rightarrow> world" where
  "webrtc_default options =
     (let w0 = \<lparr>pc = None, effects = []\<rparr>;
          (r, w1) = (case start options of
                       None \<Rightarrow> (Undefined, w0)
                     | Some el \<Rightarrow> addEventListener el ToggleRecording w0);
          w2 = (if nullish r then startRecording options w1 else w1);
          w3 = (case stop options of
                  None \<Rightarrow> w2
                | Some el \<Rightarrow> snd (addEventListener el StopRecording w2))
      in w3)"

section \<open>The first pass\<close>

text \<open>A step appends to \<open>old\<close> and never reads \<open>isKind\<close>.\<close>

lemma snd_collect_step:
  "snd (collect_step kind codec (k, old) l) =
     old @ codec_pts codec l @ rtx_pts (old @ codec_pts codec l) l"
  by (simp add: collect_step_def codec_pts_def rtx_pts_def Let_def split: option.splits)

lemma collect_append:
  "collect kind codec st (xs @ ys) = collect kind codec (collect kind codec st xs) ys"
  by (simp add: collect_def)

lemma snd_collect_flag:
  "snd (collect kind codec (k, old) ls) = snd (collect kind codec (k', old) ls)"
proof (induction ls arbitrary: k k' old)
  case Nil
  show ?case by (simp add: collect_def)
next
  case (Cons l ls)
  obtain a b where s1: "collect_step kind codec (k, old) l = (a, b)" by (cases "collect_step kind codec (k, old) l")
  obtain a' b' where s2: "collect_step kind codec (k', old) l = (a', b')" by (cases "collect_step kind codec (k', old) l")
  have "b = b'" using snd_collect_step[of kind codec k old l] snd_collect_step[of kind codec k' old l] s1 s2 by simp
  then show ?case using Cons.IH[of a b a'] s1 s2 by (simp add: collect_def)
qed

lemma allowed_of_snoc:
  "allowed_of kind codec (ls @ [l]) =
     allowed_of kind codec ls @ codec_pts codec l
       @ rtx_pts (allowed_of kind codec ls @ codec_pts codec l) l"
proof -
  obtain k old where s: "collect kind codec (False, []) ls = (k, old)"
    by (cases "collect kind codec (False, []) ls")
  have "collect kind codec (False, []) (ls @ [l]) = collect_step kind codec (k, old) l"
    using s by (simp add: collect_def)
  then show ?thesis using s snd_collect_step[of kind codec k old l]
    by (simp add: allowed_of_def)
qed

lemma allowed_of_append:
  "allowed_of kind codec (xs @ ys) = snd (collect kind codec (k, allowed_of kind codec xs) ys)"
proof -
  obtain k0 old where s: "collect kind codec (False, []) xs = (k0, old)"
    by (cases "collect kind codec (False, []) xs")
  show ?thesis using s snd_collect_flag[of kind codec k0 old ys k]
    by (simp add: allowed_of_def collect_append)
qed

lemma search_Some_suffix:
  "search m s = Some (p, r) \<Longrightarrow> \<exists>t. s = p @ t \<and> m t = Some r"
proof (induction s arbitrary: p)
  case Nil
  then show ?case by auto
next
  case (Cons c cs)
  then show ?case by (fastforce split: option.splits)
qed

lemma after_Some: "after p s = Some r \<longleftrightarrow> s = p @ r"
  by (auto simp: after_def prefix_def)

lemma digits1_Some:
  "digits1 s = Some (g, r) \<Longrightarrow> s = g @ r \<and> g \<noteq> [] \<and> g = takeWhile is_digit s"
  by (auto simp: digits1_def split: if_splits)

lemma rtx_at_last: "rtx_at t = Some r \<Longrightarrow> t \<noteq> [] \<and> last t = CR"
  by (auto simp: rtx_at_def after_Some split: option.splits if_splits dest!: digits1_Some)

lemma search_rtx_last:
  assumes "search rtx_at l = Some r"
  shows "l \<noteq> [] \<and> last l = CR"
proof -
  obtain p g where r: "r = (p, g)" by (cases r)
  from search_Some_suffix[of rtx_at l p g] assms r
  obtain t where t: "l = p @ t" "rtx_at t = Some g" by auto
  from rtx_at_last[OF t(2)] t(1) show ?thesis by simp
qed

lemma rtx_pts_no_cr: "l = [] \<or> last l \<noteq> CR \<Longrightarrow> rtx_pts old l = []"
  using search_rtx_last[of l] by (cases "search rtx_at l") (auto simp: rtx_pts_def)

lemma allowed_no_cr:
  assumes "\<forall>l\<in>set ls. l = [] \<or> last l \<noteq> CR"
  shows "allowed_of kind codec ls = concat (map (codec_pts codec) ls)"
  using assms
proof (induction ls rule: rev_induct)
  case Nil
  show ?case by (simp add: allowed_of_def collect_def)
next
  case (snoc l ls)
  then show ?case by (simp add: allowed_of_snoc rtx_pts_no_cr)
qed

text \<open>\<open>rtxRegex\<close> matches exactly the lines of the form \<open>rtx_text\<close>, at the place where
  that form starts.\<close>

lemma digits1_run:
  assumes "g \<noteq> []" and "list_all is_digit g" and "\<not> is_digit c"
  shows "digits1 (g @ c # r) = Some (g, c # r)"
proof -
  have all: "\<And>x. x \<in> set g \<Longrightarrow> is_digit x" using assms(2) by (simp add: list_all_iff)
  have t: "takeWhile is_digit (g @ c # r) = g"
    using all assms(3) by (simp add: takeWhile_tail)
  have d: "dropWhile is_digit (g @ c # r) = c # r"
    using all assms(3) by (simp add: dropWhile_append2)
  show ?thesis using t d assms(1) by (simp add: digits1_def)
qed

lemma digits1_digits: "digits1 s = Some (g, r) \<Longrightarrow> list_all is_digit g"
  by (auto simp: digits1_def list_all_iff split: if_splits dest: set_takeWhileD)

lemma rtx_at_text:
  assumes "g1 \<noteq> []" "list_all is_digit g1" "g2 \<noteq> []" "list_all is_digit g2"
  shows "rtx_at (''a=fmtp:'' @ g1 @ '' apt='' @ g2 @ [CR]) = Some (g1, g2)"
proof -
  have a1: "after ''a=fmtp:'' (''a=fmtp:'' @ g1 @ '' apt='' @ g2 @ [CR]) = Some (g1 @ '' apt='' @ g2 @ [CR])"
    by (simp only: after_Some)
  have sp: "\<not> is_digit CHR '' ''" by (simp add: is_digit_def)
  have cr: "\<not> is_digit CR" by (simp add: is_digit_def)
  have d1: "digits1 (g1 @ '' apt='' @ g2 @ [CR]) = Some (g1, '' apt='' @ g2 @ [CR])"
    using digits1_run[OF assms(1,2) sp, of "''apt='' @ g2 @ [CR]"] by simp
  have a2: "after '' apt='' ('' apt='' @ g2 @ [CR]) = Some (g2 @ [CR])"
    by (simp only: after_Some)
  have d2: "digits1 (g2 @ [CR]) = Some (g2, [CR])"
    using digits1_run[OF assms(3,4) cr, of "[]"] by simp
  show ?thesis unfolding rtx_at_def by (simp only: a1 d1 a2 d2 option.case prod.case) simp
qed

lemma rtx_at_shape:
  assumes "rtx_at t = Some (g1, g2)"
  shows "rtx_text t [] g1 g2"
proof -
  obtain r where a1: "after ''a=fmtp:'' t = Some r"
    using assms by (cases "after ''a=fmtp:'' t") (simp_all add: rtx_at_def)
  obtain x1 r1 where d1: "digits1 r = Some (x1, r1)"
    using assms a1 by (cases "digits1 r") (auto simp: rtx_at_def)
  obtain r2 where a2: "after '' apt='' r1 = Some r2"
    using assms a1 d1 by (cases "after '' apt='' r1") (simp_all add: rtx_at_def)
  obtain x2 r3 where d2: "digits1 r2 = Some (x2, r3)"
    using assms a1 d1 a2 by (cases "digits1 r2") (auto simp: rtx_at_def)
  have e: "r3 = [CR] \<and> x1 = g1 \<and> x2 = g2"
    using assms a1 d1 a2 d2 by (simp add: rtx_at_def split: if_splits)
  have t: "t = ''a=fmtp:'' @ r" using a1 by (simp only: after_Some)
  have r: "r = x1 @ r1 \<and> x1 \<noteq> []" using digits1_Some[OF d1] by blast
  have r1: "r1 = '' apt='' @ r2" using a2 by (simp only: after_Some)
  have r2: "r2 = x2 @ r3 \<and> x2 \<noteq> []" using digits1_Some[OF d2] by blast
  have "t = ''a=fmtp:'' @ g1 @ '' apt='' @ g2 @ [CR]" using t r r1 r2 e by simp
  then show ?thesis
    using r r2 e digits1_digits[OF d1] digits1_digits[OF d2] by (simp add: rtx_text_def)
qed

lemma search_finds:
  "m t = Some r \<Longrightarrow> \<exists>p' q r'. search m (p @ t) = Some (p', r') \<and> p = p' @ q \<and> m (q @ t) = Some r'"
proof (induction p)
  case Nil
  then show ?case by (cases t) auto
next
  case (Cons c p)
  show ?case
  proof (cases "m (c # p @ t)")
    case (Some r0)
    then have "search m ((c # p) @ t) = Some ([], r0) \<and> c # p = [] @ (c # p) \<and> m ((c # p) @ t) = Some r0"
      by simp
    then show ?thesis by blast
  next
    case None
    from Cons.IH[OF Cons.prems] obtain p' q r' where
      "search m (p @ t) = Some (p', r')" "p = p' @ q" "m (q @ t) = Some r'" by blast
    then have "search m ((c # p) @ t) = Some (c # p', r') \<and> c # p = (c # p') @ q \<and> m (q @ t) = Some r'"
      using None by simp
    then show ?thesis by blast
  qed
qed

lemma split_at_last:
  assumes "u @ x # v = u' @ x # v'" and "x \<notin> set v" and "x \<notin> set v'"
  shows "u = u'"
proof -
  have "takeWhile (\<lambda>c. c \<noteq> x) (rev v @ x # rev u)
          = rev v @ takeWhile (\<lambda>c. c \<noteq> x) (x # rev u)"
    by (rule takeWhile_append2) (use assms(2) in auto)
  then have "takeWhile (\<lambda>c. c \<noteq> x) (rev v @ x # rev u) = rev v" by simp
  moreover have "takeWhile (\<lambda>c. c \<noteq> x) (rev v' @ x # rev u')
          = rev v' @ takeWhile (\<lambda>c. c \<noteq> x) (x # rev u')"
    by (rule takeWhile_append2) (use assms(3) in auto)
  then have "takeWhile (\<lambda>c. c \<noteq> x) (rev v' @ x # rev u') = rev v'" by simp
  moreover have "rev v @ x # rev u = rev v' @ x # rev u'"
    using arg_cong[OF assms(1), of rev] by simp
  ultimately have "v = v'" by simp
  then show ?thesis using assms(1) by simp
qed

lemma digits_no_f: "list_all is_digit g \<Longrightarrow> CHR ''f'' \<notin> set g"
proof
  assume "list_all is_digit g" and "CHR ''f'' \<in> set g"
  then have "is_digit CHR ''f''" by (simp only: list_all_iff)
  moreover have "\<not> is_digit CHR ''f''" by (simp add: is_digit_def)
  ultimately show False by (rule notE[rotated])
qed

lemma rtx_text_start:
  assumes "rtx_text (q @ t) [] h1 h2" and "rtx_text t [] g1 g2"
  shows "q = []"
proof -
  let ?v = "\<lambda>a b. ''mtp:'' @ a @ '' apt='' @ b @ [CR]"
  have t: "t = ''a=fmtp:'' @ g1 @ '' apt='' @ g2 @ [CR]"
    using assms(2) by (simp only: rtx_text_def append_Nil)
  have qt: "q @ t = ''a=fmtp:'' @ h1 @ '' apt='' @ h2 @ [CR]"
    using assms(1) by (simp only: rtx_text_def append_Nil)
  have "(q @ ''a='') @ CHR ''f'' # ?v g1 g2 = q @ t" by (subst t) simp
  also have "\<dots> = ''a=fmtp:'' @ h1 @ '' apt='' @ h2 @ [CR]" by (rule qt)
  also have "\<dots> = ''a='' @ CHR ''f'' # ?v h1 h2" by simp
  finally have e: "(q @ ''a='') @ CHR ''f'' # ?v g1 g2 = ''a='' @ CHR ''f'' # ?v h1 h2" .
  have g: "list_all is_digit g1" "list_all is_digit g2" using assms(2) by (simp_all only: rtx_text_def)
  have h: "list_all is_digit h1" "list_all is_digit h2" using assms(1) by (simp_all only: rtx_text_def)
  have "CHR ''f'' \<notin> set (?v g1 g2)"
    using digits_no_f[OF g(1)] digits_no_f[OF g(2)] by simp
  moreover have "CHR ''f'' \<notin> set (?v h1 h2)"
    using digits_no_f[OF h(1)] digits_no_f[OF h(2)] by simp
  ultimately have "q @ ''a='' = ''a=''" by (rule split_at_last[OF e])
  then show ?thesis by simp
qed

lemma search_rtx_iff: "search rtx_at l = Some (p, g1, g2) \<longleftrightarrow> rtx_text l p g1 g2"
proof
  assume "search rtx_at l = Some (p, g1, g2)"
  from search_Some_suffix[OF this] obtain t where t: "l = p @ t" "rtx_at t = Some (g1, g2)"
    by auto
  from rtx_at_shape[OF t(2)] t(1) show "rtx_text l p g1 g2" by (simp add: rtx_text_def)
next
  assume a: "rtx_text l p g1 g2"
  let ?t = "''a=fmtp:'' @ g1 @ '' apt='' @ g2 @ [CR]"
  have l: "l = p @ ?t" using a by (simp add: rtx_text_def)
  have m: "rtx_at ?t = Some (g1, g2)" using a by (intro rtx_at_text) (simp_all add: rtx_text_def)
  have tt: "rtx_text ?t [] g1 g2" using a by (simp add: rtx_text_def)
  from search_finds[of rtx_at ?t "(g1, g2)" p, OF m] obtain p' q r' where
    s: "search rtx_at (p @ ?t) = Some (p', r')" and pq: "p = p' @ q" and mq: "rtx_at (q @ ?t) = Some r'"
    by blast
  obtain h1 h2 where r': "r' = (h1, h2)" by (cases r')
  from rtx_at_shape[of "q @ ?t" h1 h2] mq r' have "rtx_text (q @ ?t) [] h1 h2" by simp
  from rtx_text_start[OF this tt] have q: "q = []" .
  then have "r' = (g1, g2)" using mq m by simp
  then show "search rtx_at l = Some (p, g1, g2)" using s pq q l by simp
qed

section \<open>The second pass\<close>

text \<open>The output is the kept texts, each followed by a space and a newline.\<close>

lemma rewrite_step_emit:
  "rewrite_step kind allowed (k, old) l =
     (isKind_step kind l k,
      old @ (case emit kind allowed (isKind_step kind l k) l of
               None \<Rightarrow> [] | Some c \<Rightarrow> c @ '' \<newline>''))"
  by (simp add: rewrite_step_def emit_def included_def Let_def split: option.splits)

lemma rewrite_chunks:
  "rewrite kind allowed (k, old) ls =
     (flag_after kind k ls, old @ terminated (chunks kind allowed k ls))"
proof (induction ls arbitrary: k old)
  case Nil
  show ?case by (simp add: rewrite_def flag_after_def terminated_def)
next
  case (Cons l ls)
  have "rewrite kind allowed (k, old) (l # ls) =
          rewrite kind allowed (rewrite_step kind allowed (k, old) l) ls"
    by (simp add: rewrite_def)
  then show ?case
    by (simp add: rewrite_step_emit Cons.IH flag_after_def terminated_def split: option.splits)
qed

lemma sdpFilterCodec_chunks:
  "sdpFilterCodec kind codec realSdp =
     terminated (chunks kind (allowed_of kind codec (sdp_lines realSdp)) False (sdp_lines realSdp))"
  by (simp add: sdpFilterCodec_def Let_def rewrite_chunks)

lemma flag_after_append:
  "flag_after kind k (xs @ ys) = flag_after kind (flag_after kind k xs) ys"
  by (simp add: flag_after_def)

lemma chunks_append:
  "chunks kind allowed k (xs @ ys) =
     chunks kind allowed k xs @ chunks kind allowed (flag_after kind k xs) ys"
  by (induction xs arbitrary: k) (auto simp: flag_after_def split: option.splits)

lemma terminated_append: "terminated (xs @ ys) = terminated xs @ terminated ys"
  by (simp add: terminated_def)

lemma rewrite_outside_line:
  assumes "i < length ls" and "\<not> flag_after kind k (take (Suc i) ls)"
  shows "snd (rewrite kind allowed (k, []) ls) =
           snd (rewrite kind allowed (k, []) (take i ls)) @ (ls ! i @ '' \<newline>'')
             @ snd (rewrite kind allowed (False, []) (drop (Suc i) ls))"
proof -
  have ls: "ls = take i ls @ ls ! i # drop (Suc i) ls"
    using assms(1) by (simp add: id_take_nth_drop)
  have tk: "take (Suc i) ls = take i ls @ [ls ! i]"
    using assms(1) by (simp add: take_Suc_conv_app_nth)
  have fl: "\<not> isKind_step kind (ls ! i) (flag_after kind k (take i ls))"
    using assms(2) by (simp add: tk flag_after_def)
  have "chunks kind allowed k ls =
          chunks kind allowed k (take i ls) @ [ls ! i] @ chunks kind allowed False (drop (Suc i) ls)"
    by (subst ls) (simp add: chunks_append fl emit_def)
  then show ?thesis
    by (simp add: rewrite_chunks terminated_append) (simp add: terminated_def)
qed

section \<open>The output split into lines again\<close>

lemma split_from_line:
  "LF \<notin> set c \<Longrightarrow> split_from cur (c @ LF # rest) = (cur @ c) # split_from [] rest"
  by (induction c arbitrary: cur) auto

lemma split_from_no_LF:
  "LF \<notin> set cur \<Longrightarrow> l \<in> set (split_from cur s) \<Longrightarrow> LF \<notin> set l"
proof (induction s arbitrary: cur)
  case Nil
  then show ?case by simp
next
  case (Cons c s)
  show ?case
  proof (cases "c = LF")
    case True
    then have "l = cur \<or> l \<in> set (split_from [] s)" using Cons.prems(2) by simp
    then show ?thesis using Cons.prems(1) Cons.IH[of "[]"] by auto
  next
    case False
    then have "l \<in> set (split_from (cur @ [c]) s)" using Cons.prems(2) by simp
    moreover have "LF \<notin> set (cur @ [c])" using False Cons.prems(1) by simp
    ultimately show ?thesis by (rule Cons.IH[rotated])
  qed
qed

lemma sdp_lines_no_LF: "l \<in> set (sdp_lines realSdp) \<Longrightarrow> LF \<notin> set l"
  using split_from_no_LF[of "[]" l] by (cases realSdp) (auto simp: sdp_lines_def split_nl_def)

lemma split_terminated:
  "\<forall>c\<in>set cs. LF \<notin> set c \<Longrightarrow>
     split_nl (terminated cs) = map (\<lambda>c. c @ '' '') cs @ [[]]"
proof (induction cs)
  case Nil
  show ?case by (simp add: split_nl_def terminated_def)
next
  case (Cons c cs)
  have "split_from [] ((c @ '' '') @ LF # terminated cs) = ([] @ c @ '' '') # split_from [] (terminated cs)"
    using Cons.prems by (intro split_from_line) simp
  then show ?case using Cons by (simp add: split_nl_def terminated_def)
qed

lemma lazy_dots_Some: "lazy_dots r = Some p \<Longrightarrow> \<exists>t. r = p @ t \<and> tail_ok t"
proof (induction r arbitrary: p)
  case Nil
  then show ?case by simp
next
  case (Cons c cs)
  show ?case
  proof (cases "tail_ok (c # cs)")
    case True
    then show ?thesis using Cons.prems by auto
  next
    case False
    then obtain p' where p': "lazy_dots cs = Some p'" "p = c # p'"
      using Cons.prems by (auto split: if_splits)
    from Cons.IH[OF p'(1)] p'(2) show ?thesis by auto
  qed
qed

lemma search_video_Some:
  assumes "search (video_at kind) l = Some (pre, g1)"
  shows "\<exists>t. l = pre @ g1 @ t \<and> tail_ok t"
proof -
  from search_Some_suffix[OF assms] obtain u where u: "l = pre @ u" "video_at kind u = Some g1"
    by auto
  from u(2) obtain r p where r: "u = (''m='' @ kind_str kind @ '' '') @ r" "lazy_dots r = Some p"
      "g1 = ''m='' @ kind_str kind @ '' '' @ p"
    by (auto simp: video_at_def after_Some split: option.splits)
  from lazy_dots_Some[OF r(2)] obtain t where "r = p @ t" "tail_ok t" by auto
  then show ?thesis using u(1) r by auto
qed

lemma digit_char_digit: "d < 10 \<Longrightarrow> is_digit (digit_char d)"
proof -
  assume "d < 10"
  then have "d < length ''0123456789''" by simp
  then have "''0123456789'' ! d \<in> set ''0123456789''" by (rule nth_mem)
  then show ?thesis by (simp only: is_digit_def digit_char_def)
qed

lemma numToString_digits: "set (numToString n) \<subseteq> Collect is_digit \<and> numToString n \<noteq> []"
proof (induction n rule: numToString.induct)
  case (1 n)
  show ?case
  proof (cases "n < 10")
    case True
    then show ?thesis
      by (subst numToString.simps, subst numToString.simps) (simp add: digit_char_digit)
  next
    case False
    have "n mod 10 < 10" by simp
    then have "is_digit (digit_char (n mod 10))" by (rule digit_char_digit)
    then show ?thesis using False 1 by (subst numToString.simps, subst numToString.simps) simp
  qed
qed

lemma join_sp_chars: "c \<in> set (join_sp A) \<Longrightarrow> is_digit c \<or> c = CHR '' ''"
  using numToString_digits by (induction A rule: join_sp.induct) auto

lemma join_sp_hd: "A \<noteq> [] \<Longrightarrow> \<exists>d r. join_sp A = d # r \<and> is_digit d"
proof (induction A rule: join_sp.induct)
  case 1
  then show ?case by simp
next
  case (2 n)
  then show ?case using numToString_digits[of n] by (cases "numToString n") auto
next
  case (3 n m ns)
  then show ?case using numToString_digits[of n] by (cases "numToString n") auto
qed

lemma tail_ok_digit: "is_digit d \<Longrightarrow> \<not> tail_ok (d # r)"
  by (auto simp: is_digit_def is_space_def)

lemma included_nonempty: "included A l \<Longrightarrow> A \<noteq> []"
  by (auto simp: included_def split: option.splits)

lemma emit_not_shorter: "emit kind A k (c @ '' '') \<noteq> Some c"
proof
  assume e: "emit kind A k (c @ '' '') = Some c"
  show False
  proof (cases "search (video_at kind) (c @ '' '')")
    case None
    then show ?thesis using e by (auto simp: emit_def split: if_splits)
  next
    case (Some pg)
    obtain pre g1 where pg: "pg = (pre, g1)" by (cases pg)
    from search_video_Some[of kind "c @ '' ''" pre g1] Some pg
    obtain t where t: "c @ '' '' = pre @ g1 @ t" "tail_ok t" by auto
    show ?thesis
    proof (cases "k \<and> included A (c @ '' '')")
      case False
      then show ?thesis using e by (auto simp: emit_def split: if_splits)
    next
      case True
      then have c: "c = pre @ g1 @ join_sp A" using e Some pg by (simp add: emit_def)
      from True included_nonempty obtain d r where d: "join_sp A = d # r" "is_digit d"
        using join_sp_hd[of A] by blast
      from t(1) c have "t = join_sp A @ '' ''" by simp
      then have "t = d # (r @ '' '')" using d(1) by simp
      then have "\<not> tail_ok t"
        using tail_ok_digit[OF d(2), of "r @ '' ''"] by (simp del: tail_ok.simps)
      then show ?thesis using t(2) by simp
    qed
  qed
qed

lemma length_chunks: "length (chunks kind A k ls) \<le> length ls"
  by (induction ls arbitrary: k) (auto split: option.splits simp: le_SucI)

lemma space_line_flag: "list_all is_space l \<Longrightarrow> isKind_step kind l k = k"
  by (cases kind) (auto simp: isKind_step_def startsWith_def prefix_def is_space_def)

lemma chunks_all_kept:
  "chunks kind A k (map (\<lambda>c. c @ '' '') cs @ [[]]) = c0 # cs \<Longrightarrow> \<not> k \<and> list_all is_space c0"
proof (induction cs arbitrary: c0 k)
  case Nil
  have "isKind_step kind [] k = k" by (rule space_line_flag) simp
  then show ?case using Nil
    by (auto simp: emit_def included_def skip_at_def after_def split: if_splits option.splits)
next
  case (Cons c1 cs)
  let ?k' = "isKind_step kind (c1 @ '' '') k"
  let ?M = "map (\<lambda>c. c @ '' '') cs @ [[]]"
  have len: "length (chunks kind A ?k' ?M) \<le> Suc (length cs)"
    using length_chunks[of kind A ?k' ?M] by simp
  from Cons.prems have e: "emit kind A ?k' (c1 @ '' '') = Some c0"
      and r: "chunks kind A ?k' ?M = c1 # cs"
    using len by (auto split: option.splits)
  from Cons.IH[OF r] have k': "\<not> ?k'" and sp: "list_all is_space c1" by auto
  have sp': "list_all is_space (c1 @ '' '')" using sp by (simp add: is_space_def)
  from space_line_flag[OF sp'] k' have "\<not> k" by simp
  moreover from e k' have "c0 = c1 @ '' ''" by (simp add: emit_def)
  ultimately show ?case using sp' by simp
qed

lemma chunks_no_fixpoint: "chunks kind A False (map (\<lambda>c. c @ '' '') cs @ [[]]) \<noteq> cs"
proof (cases cs)
  case Nil
  have "isKind_step kind [] False = False" by (rule space_line_flag) simp
  then show ?thesis using Nil by (simp add: emit_def)
next
  case (Cons c cs')
  let ?k' = "isKind_step kind (c @ '' '') False"
  show ?thesis
  proof
    assume a: "chunks kind A False (map (\<lambda>c. c @ '' '') cs @ [[]]) = cs"
    show False
    proof (cases "emit kind A ?k' (c @ '' '')")
      case None
      then have "chunks kind A ?k' (map (\<lambda>c. c @ '' '') cs' @ [[]]) = c # cs'"
        using a Cons by simp
      from chunks_all_kept[OF this] have "\<not> ?k'" by simp
      then show False using None by (simp add: emit_def)
    next
      case (Some h)
      then have "h = c" using a Cons by simp
      then show False using Some emit_not_shorter[of kind A ?k' c] by simp
    qed
  qed
qed

lemma emit_no_LF:
  assumes "LF \<notin> set l" and "emit kind A k l = Some c"
  shows "LF \<notin> set c"
proof (cases "search (video_at kind) l")
  case None
  then show ?thesis using assms by (auto simp: emit_def split: if_splits)
next
  case (Some pg)
  obtain pre g1 where pg: "pg = (pre, g1)" by (cases pg)
  from search_video_Some[of kind l pre g1] Some pg
  obtain t where t: "l = pre @ g1 @ t" by auto
  have j: "LF \<notin> set (join_sp A)" using join_sp_chars[of LF A] by (auto simp: is_digit_def)
  have "c = l \<or> c = pre @ g1 @ join_sp A"
    using assms(2) Some pg by (auto simp: emit_def split: if_splits)
  then show ?thesis using assms(1) t j by auto
qed

lemma chunks_no_LF:
  "\<forall>l\<in>set ls. LF \<notin> set l \<Longrightarrow> c \<in> set (chunks kind A k ls) \<Longrightarrow> LF \<notin> set c"
proof (induction ls arbitrary: k)
  case Nil
  then show ?case by simp
next
  case (Cons l ls)
  then show ?case using emit_no_LF[of l kind A "isKind_step kind l k"]
    by (auto split: option.splits)
qed

section \<open>The claims about sdpFilterCodec\<close>

text \<open>
  Claim C1 says that the output always holds the header line \<^verbatim>\<open>m=<kind> ...\<close> of the
  section, rewritten to end in the allowed payload types. The code keeps a line of the
  section only when \<open>isIncluded\<close> holds, and a header line names no mapping, so it is
  dropped: filtering the document below for \<^verbatim>\<open>H264/90000\<close> gives the session line and the
  mapping of payload type 96 and no \<^verbatim>\<open>m=video\<close> line at all.
\<close>

theorem C1_header_line_dropped:
  "sdpFilterCodec Video ''H264/90000''
     (Some (''v=0'' @ [CR, LF] @
            ''m=video 9 UDP/TLS/RTP/SAVPF 96 98'' @ [CR, LF] @
            ''a=rtpmap:96 H264/90000'' @ [CR, LF] @
            ''a=rtpmap:98 VP8/90000'' @ [CR]))
   = ''v=0'' @ [CR] @ '' \<newline>'' @ ''a=rtpmap:96 H264/90000'' @ [CR] @ '' \<newline>''"
  by code_simp

text \<open>
  Claim C2 says that a line of the section that is neither the header nor a mapping of
  a payload type outside the allowed ones is copied. The code copies a line of the
  section only when it is a mapping of an allowed payload type: in the document below
  the line \<^verbatim>\<open>a=mid:0\<close> of the video section is dropped.
\<close>

theorem C2_plain_line_dropped:
  "sdpFilterCodec Video ''H264/90000''
     (Some (''m=video 9 UDP/TLS/RTP/SAVPF 96'' @ [CR, LF] @
            ''a=mid:0'' @ [CR, LF] @
            ''a=rtpmap:96 H264/90000'' @ [CR]))
   = ''a=rtpmap:96 H264/90000'' @ [CR] @ '' \<newline>''"
  by code_simp

text \<open>
  Claim C3, as amended: a line outside the section of the kind is written to the output
  as it is, followed by a space and a newline, between what the filter writes for the
  lines before it and what it writes for the lines after it. (So the line of the output
  is the line of the input with one space more at its end.) Line \<open>i\<close> is outside the
  section when \<open>isKind\<close> is false once lines \<open>0\<close> to \<open>i\<close> are scanned.
\<close>

theorem C3_outside_line_kept_with_space:
  assumes "ls = sdp_lines realSdp" and "A = allowed_of kind codec ls"
    and "i < length ls" and "\<not> in_section kind (take (Suc i) ls)"
  shows "sdpFilterCodec kind codec realSdp =
           snd (rewrite kind A (False, []) (take i ls)) @ (ls ! i @ '' \<newline>'')
             @ snd (rewrite kind A (False, []) (drop (Suc i) ls))"
  using rewrite_outside_line[of i ls kind False A] assms
  by (simp add: sdpFilterCodec_def Let_def in_section_def)

text \<open>The claim as it was stated fails on the one-line document \<^verbatim>\<open>v=0\<close>: no line of the
  output is that line.\<close>

theorem C3_not_byte_identical:
  "''v=0'' \<notin> set (split_nl (sdpFilterCodec Video ''H264/90000'' (Some ''v=0'')))"
  by code_simp

text \<open>The amended claim at line 3 (counted from 0), \<^verbatim>\<open>m=audio ...\<close>, of a document with
  a video and an audio section.\<close>

theorem C3_outside_line_witness:
  "3 < length (sdp_lines (Some (''v=0'' @ [CR, LF] @
            ''m=video 9 UDP/TLS/RTP/SAVPF 96'' @ [CR, LF] @
            ''a=rtpmap:96 H264/90000'' @ [CR, LF] @
            ''m=audio 9 UDP/TLS/RTP/SAVPF 0'' @ [CR, LF] @
            ''a=rtpmap:0 PCMU/8000'' @ [CR])))
   \<and> \<not> in_section Video (take (Suc 3) (sdp_lines (Some (''v=0'' @ [CR, LF] @
            ''m=video 9 UDP/TLS/RTP/SAVPF 96'' @ [CR, LF] @
            ''a=rtpmap:96 H264/90000'' @ [CR, LF] @
            ''m=audio 9 UDP/TLS/RTP/SAVPF 0'' @ [CR, LF] @
            ''a=rtpmap:0 PCMU/8000'' @ [CR]))))
   \<and> sdpFilterCodec Video ''H264/90000'' (Some (''v=0'' @ [CR, LF] @
            ''m=video 9 UDP/TLS/RTP/SAVPF 96'' @ [CR, LF] @
            ''a=rtpmap:96 H264/90000'' @ [CR, LF] @
            ''m=audio 9 UDP/TLS/RTP/SAVPF 0'' @ [CR, LF] @
            ''a=rtpmap:0 PCMU/8000'' @ [CR]))
       = (''v=0'' @ [CR] @ '' \<newline>'' @ ''a=rtpmap:96 H264/90000'' @ [CR] @ '' \<newline>'')
         @ ((''m=audio 9 UDP/TLS/RTP/SAVPF 0'' @ [CR]) @ '' \<newline>'')
         @ (''a=rtpmap:0 PCMU/8000'' @ [CR] @ '' \<newline>'')"
proof -
  let ?s = "Some (''v=0'' @ [CR, LF] @
            ''m=video 9 UDP/TLS/RTP/SAVPF 96'' @ [CR, LF] @
            ''a=rtpmap:96 H264/90000'' @ [CR, LF] @
            ''m=audio 9 UDP/TLS/RTP/SAVPF 0'' @ [CR, LF] @
            ''a=rtpmap:0 PCMU/8000'' @ [CR])"
  let ?ls = "sdp_lines ?s"
  let ?A = "allowed_of Video ''H264/90000'' ?ls"
  have h3: "3 < length ?ls" by code_simp
  have h4: "\<not> in_section Video (take (Suc 3) ?ls)" by code_simp
  have "sdpFilterCodec Video ''H264/90000'' ?s =
          snd (rewrite Video ?A (False, []) (take 3 ?ls)) @ (?ls ! 3 @ '' \<newline>'')
            @ snd (rewrite Video ?A (False, []) (drop (Suc 3) ?ls))"
    by (rule C3_outside_line_kept_with_space[OF refl refl h3 h4])
  also have "\<dots> = (''v=0'' @ [CR] @ '' \<newline>'' @ ''a=rtpmap:96 H264/90000'' @ [CR] @ '' \<newline>'')
         @ ((''m=audio 9 UDP/TLS/RTP/SAVPF 0'' @ [CR]) @ '' \<newline>'')
         @ (''a=rtpmap:0 PCMU/8000'' @ [CR] @ '' \<newline>'')"
    by code_simp
  finally have r: "sdpFilterCodec Video ''H264/90000'' ?s
       = (''v=0'' @ [CR] @ '' \<newline>'' @ ''a=rtpmap:96 H264/90000'' @ [CR] @ '' \<newline>'')
         @ ((''m=audio 9 UDP/TLS/RTP/SAVPF 0'' @ [CR]) @ '' \<newline>'')
         @ (''a=rtpmap:0 PCMU/8000'' @ [CR] @ '' \<newline>'')" .
  show ?thesis by (intro conjI h3 h4 r)
qed

text \<open>
  Claim C4 says that the first pass reads only the lines of the section of the kind.
  The first pass updates \<open>isKind\<close> and never reads it: in the document below the mapping
  of payload type 111 stands in the audio section, the kind is video, and 111 is
  collected.
\<close>

theorem C4_mapping_outside_section_collected:
  "allowed_of Video ''H264/90000''
     (sdp_lines (Some (''m=audio 9 UDP/TLS/RTP/SAVPF 111'' @ [CR, LF] @
            ''a=rtpmap:111 H264/90000'' @ [CR, LF] @
            ''m=video 9 UDP/TLS/RTP/SAVPF 96'' @ [CR, LF] @
            ''a=rtpmap:96 VP8/90000'' @ [CR])))
   = [111]"
  by code_simp

text \<open>
  Claim C5, as amended: a line adds a retransmission payload type exactly when \<open>rtxRegex\<close>
  matches it, that is when the line ends in \<^verbatim>\<open>a=fmtp:<pt> apt=<ref>\<close> and a carriage return,
  and \<^verbatim>\<open><ref>\<close> is in the list at that moment, which is the list after the lines before
  together with what the codec pattern finds in the line itself; the type added is
  \<^verbatim>\<open><pt>\<close>. A retransmission line of another form (no carriage return at its end, or
  more parameters after \<^verbatim>\<open>apt=<ref>\<close>) adds nothing, whether or not its base is allowed.
  The lines after \<open>l\<close> are scanned from the list as \<open>l\<close> left it, so a base found later does
  not add the payload type of \<open>l\<close>.
\<close>

theorem C5_rtx_added_iff_matched_and_base_allowed:
  "(search rtx_at l = Some (p, g1, g2) \<longleftrightarrow> rtx_text l p g1 g2)
   \<and> (allowed_of kind codec (pre @ [l]) =
        (case search rtx_at l of
           None \<Rightarrow> allowed_of kind codec pre @ codec_pts codec l
         | Some (p', h1, h2) \<Rightarrow>
             if toNumber h2 \<in> set (allowed_of kind codec pre @ codec_pts codec l)
             then allowed_of kind codec pre @ codec_pts codec l @ [toNumber h1]
             else allowed_of kind codec pre @ codec_pts codec l))
   \<and> (allowed_of kind codec (pre @ l # post) =
        snd (collect kind codec (False, allowed_of kind codec (pre @ [l])) post))"
proof (intro conjI)
  show "search rtx_at l = Some (p, g1, g2) \<longleftrightarrow> rtx_text l p g1 g2"
    by (rule search_rtx_iff)
  show "allowed_of kind codec (pre @ [l]) =
        (case search rtx_at l of
           None \<Rightarrow> allowed_of kind codec pre @ codec_pts codec l
         | Some (p', h1, h2) \<Rightarrow>
             if toNumber h2 \<in> set (allowed_of kind codec pre @ codec_pts codec l)
             then allowed_of kind codec pre @ codec_pts codec l @ [toNumber h1]
             else allowed_of kind codec pre @ codec_pts codec l)"
    by (simp add: allowed_of_snoc rtx_pts_def split: option.splits)
  show "allowed_of kind codec (pre @ l # post) =
        snd (collect kind codec (False, allowed_of kind codec (pre @ [l])) post)"
    using allowed_of_append[of kind codec "pre @ [l]" post False] by simp
qed

text \<open>The claim as it was stated fails on a document whose lines end in a line feed
  only: when the scan reaches the retransmission line of payload type 97 its base 96 is
  allowed, and 97 is not added.\<close>

theorem C5_base_allowed_rtx_not_added:
  "sdp_lines (Some (''m=video 9 UDP/TLS/RTP/SAVPF 96 97'' @ [LF] @
            ''a=rtpmap:96 H264/90000'' @ [LF] @
            ''a=rtpmap:97 rtx/90000'' @ [LF] @
            ''a=fmtp:97 apt=96''))
     = [''m=video 9 UDP/TLS/RTP/SAVPF 96 97'', ''a=rtpmap:96 H264/90000'',
        ''a=rtpmap:97 rtx/90000'', ''a=fmtp:97 apt=96'']
   \<and> 96 \<in> set (allowed_of Video ''H264/90000''
          [''m=video 9 UDP/TLS/RTP/SAVPF 96 97'', ''a=rtpmap:96 H264/90000'',
           ''a=rtpmap:97 rtx/90000''])
   \<and> 97 \<notin> set (allowed_of Video ''H264/90000''
          [''m=video 9 UDP/TLS/RTP/SAVPF 96 97'', ''a=rtpmap:96 H264/90000'',
           ''a=rtpmap:97 rtx/90000'', ''a=fmtp:97 apt=96''])"
  by code_simp

text \<open>The amended claim on four scans: the pattern matches the line that ends in a
  carriage return; with the base before it 97 is added; the same line with more
  parameters after the base adds nothing; with the base after it 97 is not added.\<close>

theorem C5_rtx_witness:
  "search rtx_at (''a=fmtp:97 apt=96'' @ [CR]) = Some ([], ''97'', ''96'')
   \<and> allowed_of Video ''H264/90000''
         ([''a=rtpmap:96 H264/90000'' @ [CR]] @ [''a=fmtp:97 apt=96'' @ [CR]]) = [96, 97]
   \<and> allowed_of Video ''H264/90000''
         ([''a=rtpmap:96 H264/90000'' @ [CR]] @ [''a=fmtp:97 apt=96;rtx-time=3000'' @ [CR]])
       = [96]
   \<and> allowed_of Video ''H264/90000''
         ([] @ (''a=fmtp:97 apt=96'' @ [CR]) # [''a=rtpmap:96 H264/90000'' @ [CR]]) = [96]"
proof -
  let ?l = "''a=fmtp:97 apt=96'' @ [CR]"
  let ?m = "''a=fmtp:97 apt=96;rtx-time=3000'' @ [CR]"
  let ?b = "''a=rtpmap:96 H264/90000'' @ [CR]"
  let ?c = "''H264/90000''"
  have t: "rtx_text ?l [] ''97'' ''96''" by code_simp
  have h: "search rtx_at ?l = Some ([], ''97'', ''96'')"
    by (rule iffD2[OF conjunct1[OF C5_rtx_added_iff_matched_and_base_allowed] t])
  have "allowed_of Video ?c ([?b] @ [?l]) =
          (case search rtx_at ?l of
             None \<Rightarrow> allowed_of Video ?c [?b] @ codec_pts ?c ?l
           | Some (p', h1, h2) \<Rightarrow>
               if toNumber h2 \<in> set (allowed_of Video ?c [?b] @ codec_pts ?c ?l)
               then allowed_of Video ?c [?b] @ codec_pts ?c ?l @ [toNumber h1]
               else allowed_of Video ?c [?b] @ codec_pts ?c ?l)"
    by (rule conjunct1[OF conjunct2[OF C5_rtx_added_iff_matched_and_base_allowed]])
  also have "\<dots> = [96, 97]" by code_simp
  finally have r1: "allowed_of Video ?c ([?b] @ [?l]) = [96, 97]" .
  have "allowed_of Video ?c ([?b] @ [?m]) =
          (case search rtx_at ?m of
             None \<Rightarrow> allowed_of Video ?c [?b] @ codec_pts ?c ?m
           | Some (p', h1, h2) \<Rightarrow>
               if toNumber h2 \<in> set (allowed_of Video ?c [?b] @ codec_pts ?c ?m)
               then allowed_of Video ?c [?b] @ codec_pts ?c ?m @ [toNumber h1]
               else allowed_of Video ?c [?b] @ codec_pts ?c ?m)"
    by (rule conjunct1[OF conjunct2[OF C5_rtx_added_iff_matched_and_base_allowed]])
  also have "\<dots> = [96]" by code_simp
  finally have r2: "allowed_of Video ?c ([?b] @ [?m]) = [96]" .
  have "allowed_of Video ?c ([] @ ?l # [?b]) =
          snd (collect Video ?c (False, allowed_of Video ?c ([] @ [?l])) [?b])"
    by (rule conjunct2[OF conjunct2[OF C5_rtx_added_iff_matched_and_base_allowed]])
  also have "\<dots> = [96]" by code_simp
  finally have r3: "allowed_of Video ?c ([] @ ?l # [?b]) = [96]" .
  show ?thesis by (intro conjI h r1 r2 r3)
qed

text \<open>
  Claim C6, as amended: the list of allowed payload types grows at its end only, in the
  order of the scan. One more line adds the payload type of its codec mapping, whether
  or not the list has it already, and then the payload type of its retransmission
  mapping when the base is in the list; nothing is sorted, removed or merged.
\<close>

theorem C6_allowed_in_scan_order:
  "allowed_of kind codec (ls @ [l]) =
     allowed_of kind codec ls @ codec_pts codec l
       @ rtx_pts (allowed_of kind codec ls @ codec_pts codec l) l"
  by (rule allowed_of_snoc)

text \<open>The claim as it was stated fails on a document with two video sections that map
  the same payload type: the list has it twice.\<close>

theorem C6_payload_type_twice:
  "\<not> distinct (allowed_of Video ''H264/90000''
     (sdp_lines (Some (''m=video 9 UDP/TLS/RTP/SAVPF 96'' @ [CR, LF] @
            ''a=rtpmap:96 H264/90000'' @ [CR, LF] @
            ''m=video 9 UDP/TLS/RTP/SAVPF 96'' @ [CR, LF] @
            ''a=rtpmap:96 H264/90000'' @ [CR]))))"
  by code_simp

text \<open>The amended claim on three codec mappings, the last of a payload type seen before.\<close>

theorem C6_scan_order_witness:
  "allowed_of Video ''H264/90000''
     ([''a=rtpmap:100 H264/90000'' @ [CR], ''a=rtpmap:96 H264/90000'' @ [CR]]
        @ [''a=rtpmap:100 H264/90000'' @ [CR]])
   = [100, 96, 100]"
proof -
  let ?ls = "[''a=rtpmap:100 H264/90000'' @ [CR], ''a=rtpmap:96 H264/90000'' @ [CR]]"
  let ?l = "''a=rtpmap:100 H264/90000'' @ [CR]"
  let ?c = "''H264/90000''"
  have "allowed_of Video ?c (?ls @ [?l]) =
          allowed_of Video ?c ?ls @ codec_pts ?c ?l
            @ rtx_pts (allowed_of Video ?c ?ls @ codec_pts ?c ?l) ?l"
    by (rule C6_allowed_in_scan_order)
  also have "\<dots> = [100, 96, 100]" by code_simp
  finally show ?thesis .
qed

text \<open>
  Claim C7, as amended: the filter is not idempotent. Every line it writes ends in a
  space and a newline, so its output read again has a space more at the end of each
  line and one empty line more, and filtering the output of the filter never gives
  that output back, whatever the document, the kind and the codec.
\<close>

theorem C7_second_pass_differs:
  "sdpFilterCodec kind codec (Some (sdpFilterCodec kind codec realSdp))
     \<noteq> sdpFilterCodec kind codec realSdp"
proof
  let ?cs = "chunks kind (allowed_of kind codec (sdp_lines realSdp)) False (sdp_lines realSdp)"
  let ?y = "sdpFilterCodec kind codec realSdp"
  let ?M = "map (\<lambda>c. c @ '' '') ?cs @ [[]]"
  let ?ds = "chunks kind (allowed_of kind codec ?M) False ?M"
  assume a: "sdpFilterCodec kind codec (Some ?y) = ?y"
  have cs: "\<forall>c\<in>set ?cs. LF \<notin> set c"
    using chunks_no_LF[of "sdp_lines realSdp"] sdp_lines_no_LF by blast
  have y: "?y = terminated ?cs" by (rule sdpFilterCodec_chunks)
  have M: "sdp_lines (Some ?y) = ?M"
    using split_terminated[OF cs] y by (simp add: sdp_lines_def)
  have Mlf: "\<forall>l\<in>set ?M. LF \<notin> set l" using cs by auto
  have ds: "\<forall>c\<in>set ?ds. LF \<notin> set c"
    using chunks_no_LF[OF Mlf] by blast
  have "sdpFilterCodec kind codec (Some ?y) = terminated ?ds"
    using sdpFilterCodec_chunks[of kind codec "Some ?y"] M by simp
  then have "terminated ?ds = terminated ?cs" using a y by simp
  then have "split_nl (terminated ?ds) = split_nl (terminated ?cs)" by simp
  then have "map (\<lambda>c. c @ '' '') ?ds = map (\<lambda>c. c @ '' '') ?cs"
    using split_terminated[OF ds] split_terminated[OF cs] by simp
  then have "?ds = ?cs" by (simp add: inj_on_def map_eq_conv[symmetric] inj_map_eq_map)
  then show False using chunks_no_fixpoint[of kind "allowed_of kind codec ?M" ?cs] by simp
qed

text \<open>The claim as it was stated fails on the one-line document \<^verbatim>\<open>v=0\<close>: the first output
  is that line with a space and a newline, the second has two lines.\<close>

theorem C7_not_idempotent:
  "sdpFilterCodec Video ''H264/90000'' (Some ''v=0'') = ''v=0 \<newline>''
   \<and> sdpFilterCodec Video ''H264/90000''
         (Some (sdpFilterCodec Video ''H264/90000'' (Some ''v=0''))) = ''v=0  \<newline> \<newline>''
   \<and> sdpFilterCodec Video ''H264/90000''
         (Some (sdpFilterCodec Video ''H264/90000'' (Some ''v=0'')))
       \<noteq> sdpFilterCodec Video ''H264/90000'' (Some ''v=0'')"
  by code_simp

text \<open>The amended claim on a document with a video section.\<close>

theorem C7_second_pass_witness:
  "sdpFilterCodec Video ''H264/90000''
     (Some (sdpFilterCodec Video ''H264/90000''
        (Some (''m=video 9 UDP/TLS/RTP/SAVPF 96'' @ [CR, LF] @
               ''a=rtpmap:96 H264/90000'' @ [CR, LF]))))
   \<noteq> sdpFilterCodec Video ''H264/90000''
        (Some (''m=video 9 UDP/TLS/RTP/SAVPF 96'' @ [CR, LF] @
               ''a=rtpmap:96 H264/90000'' @ [CR, LF]))"
  by (rule C7_second_pass_differs)

text \<open>
  Claim C9: in a document none of whose lines ends in a carriage return, \<open>rtxRegex\<close>
  matches no line, so the allowed payload types are those of the codec mappings of the
  lines, in order, and nothing else.
\<close>

theorem C9_no_rtx_without_carriage_return:
  assumes "\<forall>l\<in>set (sdp_lines realSdp). l = [] \<or> last l \<noteq> CR"
  shows "allowed_of kind codec (sdp_lines realSdp) =
           concat (map (codec_pts codec) (sdp_lines realSdp))"
  using assms by (rule allowed_no_cr)

text \<open>The claim on a document with line feeds only, whose retransmission line names the
  allowed payload type 96: no line ends in a carriage return and only 96 is collected.\<close>

theorem C9_line_feed_only_witness:
  "sdp_lines (Some (''m=video 9 UDP/TLS/RTP/SAVPF 96 97'' @ [LF] @
            ''a=rtpmap:96 H264/90000'' @ [LF] @
            ''a=rtpmap:97 rtx/90000'' @ [LF] @
            ''a=fmtp:97 apt=96'' @ [LF]))
     = [''m=video 9 UDP/TLS/RTP/SAVPF 96 97'', ''a=rtpmap:96 H264/90000'',
        ''a=rtpmap:97 rtx/90000'', ''a=fmtp:97 apt=96'', []]
   \<and> allowed_of Video ''H264/90000''
        (sdp_lines (Some (''m=video 9 UDP/TLS/RTP/SAVPF 96 97'' @ [LF] @
            ''a=rtpmap:96 H264/90000'' @ [LF] @
            ''a=rtpmap:97 rtx/90000'' @ [LF] @
            ''a=fmtp:97 apt=96'' @ [LF]))) = [96]"
proof -
  let ?s = "Some (''m=video 9 UDP/TLS/RTP/SAVPF 96 97'' @ [LF] @
            ''a=rtpmap:96 H264/90000'' @ [LF] @
            ''a=rtpmap:97 rtx/90000'' @ [LF] @
            ''a=fmtp:97 apt=96'' @ [LF])"
  have ls: "sdp_lines ?s
     = [''m=video 9 UDP/TLS/RTP/SAVPF 96 97'', ''a=rtpmap:96 H264/90000'',
        ''a=rtpmap:97 rtx/90000'', ''a=fmtp:97 apt=96'', []]"
    by code_simp
  have h: "\<forall>l\<in>set (sdp_lines ?s). l = [] \<or> last l \<noteq> CR" by code_simp
  have "allowed_of Video ''H264/90000'' (sdp_lines ?s) =
          concat (map (codec_pts ''H264/90000'') (sdp_lines ?s))"
    by (rule C9_no_rtx_without_carriage_return[OF h])
  also have "\<dots> = [96]" by code_simp
  finally have r: "allowed_of Video ''H264/90000'' (sdp_lines ?s) = [96]" .
  show ?thesis by (intro conjI ls r)
qed

section \<open>The claims about start and stop\<close>

text \<open>
  Claim C8: the exported function calls \<open>startRecording\<close> while it sets up, whether or
  not a start element is given. With one, the listener is registered first, and since
  registering returns \<^verbatim>\<open>undefined\<close> the right operand of \<^verbatim>\<open>??\<close> runs as well: the camera
  is started before any click.
\<close>

theorem C8_recording_starts_during_setup:
  "effects (webrtc_default options) =
     (case start options of
        Some el \<Rightarrow> [AddClickListener el ToggleRecording]
      | None \<Rightarrow> [])
     @ [StartCamera (destination options) (source options) (debug options)
          (audio options) (video options)]
     @ (case stop options of
          Some el \<Rightarrow> [AddClickListener el StopRecording]
        | None \<Rightarrow> [])"
  by (simp add: webrtc_default_def addEventListener_def startRecording_def nullish_def Let_def
      split: option.splits)

text \<open>The claim with a start element and a stop element.\<close>

theorem C8_setup_witness:
  "effects (webrtc_default \<lparr>destination = 0, start = Some 1, stop = Some 2, source = None,
                             debug = False, audio = False, video = True\<rparr>)
   = [AddClickListener 1 ToggleRecording, StartCamera 0 None False False True,
      AddClickListener 2 StopRecording]"
  using C8_recording_starts_during_setup
          [of "\<lparr>destination = 0, start = Some 1, stop = Some 2, source = None,
                debug = False, audio = False, video = True\<rparr>"]
  by simp

text \<open>
  Claim C10: \<open>stopRecording\<close> with no connection (\<open>pc\<close> is null) changes nothing: \<open>pc\<close>
  stays null and nothing is done to the page or to a connection. The function has no
  failing branch.
\<close>

theorem C10_stop_without_connection:
  "pc w = None \<Longrightarrow> stopRecording options w = w"
  by (simp add: stopRecording_def)

text \<open>The claim in the state the exported function starts in.\<close>

theorem C10_stop_witness:
  "pc \<lparr>pc = None, effects = []\<rparr> = None
   \<and> stopRecording \<lparr>destination = 0, start = None, stop = Some 2, source = Some 3,
                     debug = False, audio = False, video = True\<rparr>
        \<lparr>pc = None, effects = []\<rparr>
      = \<lparr>pc = None, effects = []\<rparr>"
  using C10_stop_without_connection
          [of "\<lparr>pc = None, effects = []\<rparr>"
              "\<lparr>destination = 0, start = None, stop = Some 2, source = Some 3,
                debug = False, audio = False, video = True\<rparr>"]
  by simp

end
